theory Spec2Isabelle
  imports Complex_Main "HOL-Library.Multiset"
begin

section \<open>Slide rule cursor precision calculator\<close>

text \<open>
  A shallow embedding of \<^verbatim>\<open>scale_precision_calculator.py\<close>.

  Numbers: a Python number (an \<^verbatim>\<open>int\<close> or a finite \<^verbatim>\<open>float\<close>) is read as the
  real number it denotes, so \<^verbatim>\<open>0.05\<close> is \<open>5 / 100\<close>, and comparisons are the order of the
  reals (Python compares an \<^verbatim>\<open>int\<close> with a \<^verbatim>\<open>float\<close> exactly). Where the code computes
  a new \<^verbatim>\<open>float\<close>, the result is rounded to a double: \<^verbatim>\<open>math.log10\<close> returns the
  double nearest to the logarithm, and formatting an \<^verbatim>\<open>int\<close> converts it to the nearest
  double first. \<^verbatim>\<open>nan\<close> and the infinities are not modelled.

  Exceptions are values: \<^verbatim>\<open>math.log10\<close> raises \<^verbatim>\<open>ValueError\<close> on an argument that is not
  positive, and the conversion of an \<^verbatim>\<open>int\<close> too large for a double raises
  \<^verbatim>\<open>OverflowError\<close>.
\<close>

subsection \<open>Data\<close>

datatype py_error = ValueError | OverflowError

text \<open>
  A subsection dictionary \<^verbatim>\<open>{'beginsub': b, 'intervals': [p, s, t, q]}\<close>; an entry of
  \<^verbatim>\<open>intervals\<close> is a number or \<^verbatim>\<open>None\<close>.
\<close>

record subsection_dict =
  beginsub :: real
  intervals :: "real option list"

text \<open>
  The dictionary handed to the constructor. The key \<^verbatim>\<open>xfactor\<close> is optional
  (\<^verbatim>\<open>scale_definition.get('xfactor', 100)\<close>); the other three keys are read with
  \<^verbatim>\<open>scale_definition[...]\<close> and are fields here.
\<close>

record scale_definition =
  sd_subsections :: "subsection_dict list"
  sd_beginscale :: real
  sd_endscale :: real
  sd_xfactor :: "real option"

text \<open>The attributes of a \<^verbatim>\<open>ScalePrecisionCalculator\<close> object.\<close>

record ScalePrecisionCalculator =
  subsections :: "subsection_dict list"
  beginscale :: real
  endscale :: real
  xfactor :: real

subsection \<open>The constructor\<close>

text \<open>
  \<^verbatim>\<open>self.subsections.sort(key=lambda s: s['beginsub'])\<close>: Python's sort is stable, and
  so is \<^const>\<open>sort_key\<close>.
\<close>

definition init :: "scale_definition \<Rightarrow> ScalePrecisionCalculator" where
  "init scale_def =
     \<lparr> subsections = sort_key beginsub (sd_subsections scale_def),
       beginscale = sd_beginscale scale_def,
       endscale = sd_endscale scale_def,
       xfactor = (case sd_xfactor scale_def of None \<Rightarrow> 100 | Some x \<Rightarrow> x) \<rparr>"

subsection \<open>Finding the active subsection\<close>

text \<open>
  The loop of \<^verbatim>\<open>_find_active_subsection\<close>, with the loop variable
  \<^verbatim>\<open>active_subsection\<close> as an accumulator: a subsection whose \<^verbatim>\<open>beginsub\<close> is at
  most the position replaces it, the first other subsection ends the loop
  (\<^verbatim>\<open>break\<close>).
\<close>

fun find_active_loop ::
  "real \<Rightarrow> subsection_dict option \<Rightarrow> subsection_dict list \<Rightarrow> subsection_dict option" where
  "find_active_loop position active [] = active"
| "find_active_loop position active (s # rest) =
     (if position \<ge> beginsub s then find_active_loop position (Some s) rest
      else active)"

definition find_active_subsection ::
  "ScalePrecisionCalculator \<Rightarrow> real \<Rightarrow> subsection_dict option" where
  "find_active_subsection self position =
     find_active_loop position None (subsections self)"

subsection \<open>The smallest interval of a subsection\<close>

text \<open>
  \<^verbatim>\<open>for interval in reversed(intervals): if interval is not None: return interval\<close>,
  and \<^verbatim>\<open>None\<close> after the loop.
\<close>

fun first_not_none :: "real option list \<Rightarrow> real option" where
  "first_not_none [] = None"
| "first_not_none (None # rest) = first_not_none rest"
| "first_not_none (Some interval # rest) = Some interval"

definition get_smallest_interval :: "subsection_dict \<Rightarrow> real option" where
  "get_smallest_interval sub = first_not_none (rev (intervals sub))"

subsection \<open>Rounding to a double\<close>

text \<open>
  Rounding to the nearest integer, a tie going to the even neighbour.
\<close>

definition round_half_even :: "real \<Rightarrow> int" where
  "round_half_even x =
     (let lower = \<lfloor>x\<rfloor>; rest = x - of_int lower
      in if rest < 1 / 2 then lower
         else if rest > 1 / 2 then lower + 1
         else if even lower then lower else lower + 1)"

text \<open>
  The double nearest to a real number (IEEE 754 binary64, round to nearest, ties to even):
  a number with \<open>2 ^ e \<le> \<bar>y\<bar> < 2 ^ (e + 1)\<close> is rounded to a multiple of \<open>2 ^ (e - 52)\<close>, the
  spacing of the doubles of that binade. The exponent is not bounded here; the one place
  where the code can leave the range of the doubles, the conversion of a large \<^verbatim>\<open>int\<close>,
  checks the bound itself (\<open>float_of_int\<close> below).
\<close>

definition round_double :: "real \<Rightarrow> real" where
  "round_double y =
     (if y = 0 then 0
      else let e = \<lfloor>log 2 \<bar>y\<bar>\<rfloor>; ulp = 2 powr (of_int (e - 52))
           in of_int (round_half_even (y / ulp)) * ulp)"

subsection \<open>From an interval to decimal places\<close>

text \<open>
  \<^verbatim>\<open>math.log10(x)\<close>: \<^verbatim>\<open>ValueError\<close> for \<open>x \<le> 0\<close>, otherwise the logarithm as a double.
\<close>

definition math_log10 :: "real \<Rightarrow> py_error + real" where
  "math_log10 x = (if x \<le> 0 then Inl ValueError else Inr (round_double (log 10 x)))"

definition math_floor :: "real \<Rightarrow> int" where
  "math_floor x = \<lfloor>x\<rfloor>"

definition interval_to_decimal_places :: "real \<Rightarrow> py_error + int" where
  "interval_to_decimal_places interval =
     (if interval \<ge> 1 then Inr 1
      else case math_log10 interval of
             Inl e \<Rightarrow> Inl e
           | Inr l \<Rightarrow>
               (let decimal_places = - math_floor l;
                    decimal_places = decimal_places + 1
                in Inr (min (max decimal_places 1) 5)))"

subsection \<open>Decimal places at a position\<close>

definition get_decimal_places :: "ScalePrecisionCalculator \<Rightarrow> real \<Rightarrow> py_error + int" where
  "get_decimal_places self position =
     (if position < beginscale self \<or> position > endscale self then Inr 2
      else case find_active_subsection self position of
             None \<Rightarrow> Inr 2
           | Some active_subsection \<Rightarrow>
               (case get_smallest_interval active_subsection of
                  None \<Rightarrow> Inr 2
                | Some smallest_interval \<Rightarrow> interval_to_decimal_places smallest_interval))"

subsection \<open>The sample scales\<close>

definition c_scale_definition :: scale_definition where
  "c_scale_definition =
     \<lparr> sd_subsections =
         [ \<lparr> beginsub = 1, intervals = [Some 1, Some 0.1, Some 0.05, Some 0.01] \<rparr>,
           \<lparr> beginsub = 2, intervals = [Some 1, Some 0.5, Some 0.1, Some 0.02] \<rparr>,
           \<lparr> beginsub = 4, intervals = [Some 1, Some 0.5, Some 0.1, Some 0.05] \<rparr>,
           \<lparr> beginsub = 10, intervals = [Some 10, Some 1, Some 0.5, Some 0.1] \<rparr>,
           \<lparr> beginsub = 20, intervals = [Some 10, Some 5, Some 1, Some 0.2] \<rparr>,
           \<lparr> beginsub = 40, intervals = [Some 10, Some 5, Some 1, Some 0.5] \<rparr> ],
       sd_beginscale = 1,
       sd_endscale = 10,
       sd_xfactor = Some 100 \<rparr>"

definition create_c_scale_calculator :: ScalePrecisionCalculator where
  "create_c_scale_calculator = init c_scale_definition"

definition ll00_scale_definition :: scale_definition where
  "ll00_scale_definition =
     \<lparr> sd_subsections =
         [ \<lparr> beginsub = 0.990, intervals = [Some 0.001, Some 0.0005, Some 0.0001, Some 0.00005] \<rparr>,
           \<lparr> beginsub = 0.995, intervals = [Some 0.001, Some 0.0005, Some 0.0001, Some 0.00002] \<rparr>,
           \<lparr> beginsub = 0.998, intervals = [Some 0.0005, Some 0.0001, Some 0.00005, Some 0.00001] \<rparr> ],
       sd_beginscale = 0.990,
       sd_endscale = 0.999,
       sd_xfactor = Some 100000 \<rparr>"

definition create_ll00_scale_calculator :: ScalePrecisionCalculator where
  "create_ll00_scale_calculator = init ll00_scale_definition"

definition k_scale_definition :: scale_definition where
  "k_scale_definition =
     \<lparr> sd_subsections =
         [ \<lparr> beginsub = 1, intervals = [Some 1, Some 0.5, Some 0.1, Some 0.05] \<rparr>,
           \<lparr> beginsub = 3, intervals = [Some 1, None, Some 0.5, Some 0.1] \<rparr>,
           \<lparr> beginsub = 6, intervals = [Some 1, None, None, Some 0.2] \<rparr>,
           \<lparr> beginsub = 10, intervals = [Some 10, Some 5, Some 1, Some 0.5] \<rparr>,
           \<lparr> beginsub = 30, intervals = [Some 10, None, Some 5, Some 1] \<rparr>,
           \<lparr> beginsub = 60, intervals = [Some 10, None, None, Some 2] \<rparr>,
           \<lparr> beginsub = 100, intervals = [Some 100, Some 50, Some 10, Some 5] \<rparr>,
           \<lparr> beginsub = 300, intervals = [Some 100, None, Some 50, Some 10] \<rparr>,
           \<lparr> beginsub = 600, intervals = [Some 100, None, None, Some 20] \<rparr>,
           \<lparr> beginsub = 1000, intervals = [Some 1000, Some 500, Some 100, Some 50] \<rparr> ],
       sd_beginscale = 1,
       sd_endscale = 1000,
       sd_xfactor = Some 100 \<rparr>"

definition create_k_scale_calculator :: ScalePrecisionCalculator where
  "create_k_scale_calculator = init k_scale_definition"

subsection \<open>Formatting a position\<close>

text \<open>
  The position handed to \<^verbatim>\<open>get_formatted_value\<close> is an \<^verbatim>\<open>int\<close> or a finite \<^verbatim>\<open>float\<close>;
  the negative zero \<^verbatim>\<open>-0.0\<close> is a \<^verbatim>\<open>float\<close> of its own, equal to zero in every comparison
  and printed with its sign.
\<close>

datatype py_number = PyInt int | PyFloat real | PyNegZero

fun number_value :: "py_number \<Rightarrow> real" where
  "number_value (PyInt n) = of_int n"
| "number_value (PyFloat x) = x"
| "number_value PyNegZero = 0"

text \<open>
  \<^verbatim>\<open>float(n)\<close> for an \<^verbatim>\<open>int\<close>: the nearest double, and \<^verbatim>\<open>OverflowError\<close> when that
  is beyond the largest double (\<open>2 ^ 1024\<close> is the first power of two that is not one).
\<close>

definition float_of_int :: "int \<Rightarrow> py_error + real" where
  "float_of_int n =
     (let f = round_double (of_int n)
      in if \<bar>f\<bar> \<ge> 2 ^ 1024 then Inl OverflowError else Inr f)"

text \<open>
  The \<^verbatim>\<open>float\<close> that the presentation type \<^verbatim>\<open>f\<close> formats, as its sign bit and its
  magnitude: the position itself when it is a \<^verbatim>\<open>float\<close>, and \<^verbatim>\<open>float(position)\<close> when it
  is an \<^verbatim>\<open>int\<close>.
\<close>

fun float_to_format :: "py_number \<Rightarrow> py_error + (bool \<times> real)" where
  "float_to_format (PyFloat x) = Inr (x < 0, \<bar>x\<bar>)"
| "float_to_format PyNegZero = Inr (True, 0)"
| "float_to_format (PyInt n) =
     (case float_of_int n of
        Inl e \<Rightarrow> Inl e
      | Inr f \<Rightarrow> Inr (f < 0, \<bar>f\<bar>))"

definition digit_char :: "nat \<Rightarrow> char" where
  "digit_char n = ''0123456789'' ! n"

fun decimal_digits :: "nat \<Rightarrow> string" where
  "decimal_digits n =
     (if n < 10 then [digit_char n]
      else decimal_digits (n div 10) @ [digit_char (n mod 10)])"

declare decimal_digits.simps [simp del]

text \<open>
  The fixed-point presentation \<^verbatim>\<open>.{prec}f\<close> of a \<^verbatim>\<open>float\<close>: its exact value is rounded to
  \<^verbatim>\<open>prec\<close> fractional digits, a tie going to the even neighbour, and printed as a minus
  sign when the sign bit is set, the digits of the whole part, and (for a positive
  precision) a point and exactly \<^verbatim>\<open>prec\<close> fractional digits.
\<close>

definition format_fixed :: "nat \<Rightarrow> bool \<Rightarrow> real \<Rightarrow> string" where
  "format_fixed prec negative magnitude =
     (let scaled = nat (round_half_even (magnitude * 10 ^ prec));
          whole = decimal_digits (scaled div 10 ^ prec);
          frac = decimal_digits (scaled mod 10 ^ prec);
          sign = (if negative then ''-'' else '''')
      in if prec = 0 then sign @ whole
         else sign @ whole @ ''.'' @ replicate (prec - length frac) (CHR ''0'') @ frac)"

text \<open>
  \<^verbatim>\<open>get_formatted_value\<close>: first \<^verbatim>\<open>get_decimal_places\<close>, whose comparisons see the value of
  the position only, then the formatting.
\<close>

definition get_formatted_value ::
  "ScalePrecisionCalculator \<Rightarrow> py_number \<Rightarrow> py_error + string" where
  "get_formatted_value self position =
     (case get_decimal_places self (number_value position) of
        Inl e \<Rightarrow> Inl e
      | Inr decimal_places \<Rightarrow>
          (case float_to_format position of
             Inl e \<Rightarrow> Inl e
           | Inr (negative, magnitude) \<Rightarrow>
               Inr (format_fixed (nat decimal_places) negative magnitude)))"

text \<open>Reading a printed number back, to say what a formatted string denotes.\<close>

definition digit_value :: "char \<Rightarrow> nat" where
  "digit_value c = of_char c - 48"

definition digits_value :: "string \<Rightarrow> nat" where
  "digits_value cs = foldl (\<lambda>acc c. 10 * acc + digit_value c) 0 cs"

definition is_digit :: "char \<Rightarrow> bool" where
  "is_digit c \<longleftrightarrow> c \<in> set ''0123456789''"

section \<open>Properties\<close>

lemmas calculator_defs =
  get_decimal_places_def find_active_subsection_def get_smallest_interval_def init_def

subsection \<open>Rounding\<close>

lemma round_half_even_cases:
  "round_half_even y = \<lfloor>y\<rfloor> \<and> y - of_int \<lfloor>y\<rfloor> \<le> 1 / 2 \<or>
   round_half_even y = \<lfloor>y\<rfloor> + 1 \<and> 1 / 2 \<le> y - of_int \<lfloor>y\<rfloor>"
  by (simp add: round_half_even_def Let_def)

lemma round_half_even_le:
  assumes "z \<le> of_int j"
  shows "round_half_even z \<le> j"
proof -
  have fl: "\<lfloor>z\<rfloor> \<le> j" using assms by (simp add: floor_le_iff)
  from round_half_even_cases[of z] show ?thesis
  proof
    assume "round_half_even z = \<lfloor>z\<rfloor> \<and> z - of_int \<lfloor>z\<rfloor> \<le> 1 / 2"
    then show ?thesis using fl by simp
  next
    assume a: "round_half_even z = \<lfloor>z\<rfloor> + 1 \<and> 1 / 2 \<le> z - of_int \<lfloor>z\<rfloor>"
    then have "of_int \<lfloor>z\<rfloor> < z" by linarith
    then have "of_int \<lfloor>z\<rfloor> < (of_int j :: real)" using assms by linarith
    then have "\<lfloor>z\<rfloor> < j" by simp
    then show ?thesis using a by simp
  qed
qed

lemma round_half_even_ge:
  assumes "of_int j \<le> z"
  shows "j \<le> round_half_even z"
proof -
  have "j \<le> \<lfloor>z\<rfloor>" using assms by (simp add: le_floor_iff)
  then show ?thesis using round_half_even_cases[of z] by linarith
qed

lemma ulp_as_power:
  assumes "e \<le> 52"
  shows "(2::real) powr (of_int (e - 52)) = 1 / 2 ^ nat (52 - e)"
proof -
  have eq: "of_int (e - 52) = - real (nat (52 - e))"
    using assms by simp
  have "(2::real) powr (of_int (e - 52)) = 2 powr (- real (nat (52 - e)))"
    by (simp only: eq)
  also have "\<dots> = 1 / 2 powr (real (nat (52 - e)))"
    by (rule powr_minus_divide)
  also have "\<dots> = 1 / 2 ^ nat (52 - e)"
    by (simp add: powr_realpow)
  finally show ?thesis .
qed

lemma exponent_bound:
  assumes "y \<noteq> 0" and "\<bar>y\<bar> < 2 ^ n"
  shows "\<lfloor>log 2 \<bar>y\<bar>\<rfloor> < int n"
proof -
  have "log 2 \<bar>y\<bar> < log 2 (2 ^ n)"
    using assms by (simp del: log_pow_cancel)
  also have "\<dots> = real n" by simp
  finally show ?thesis by (simp add: floor_less_iff)
qed

lemma round_double_unfold:
  assumes "y \<noteq> 0"
  shows "round_double y =
           of_int (round_half_even (y / 2 powr (of_int (\<lfloor>log 2 \<bar>y\<bar>\<rfloor> - 52)))) *
             2 powr (of_int (\<lfloor>log 2 \<bar>y\<bar>\<rfloor> - 52))"
  using assms by (simp only: round_double_def Let_def if_False)

lemma round_double_scaled:
  assumes "y \<noteq> 0" and "\<lfloor>log 2 \<bar>y\<bar>\<rfloor> \<le> 52"
  shows "round_double y =
           of_int (round_half_even (y * 2 ^ nat (52 - \<lfloor>log 2 \<bar>y\<bar>\<rfloor>))) /
             2 ^ nat (52 - \<lfloor>log 2 \<bar>y\<bar>\<rfloor>)"
  unfolding round_double_unfold[OF assms(1)] ulp_as_power[OF assms(2)]
  by simp

text \<open>A dyadic number \<open>m / 2 ^ q\<close> is a double of every binade below \<open>2 ^ (53 - q)\<close>.\<close>

lemma round_double_le_dyadic:
  assumes "y \<noteq> 0" and "q \<le> 52" and "\<bar>y\<bar> < 2 ^ (53 - q)" and "y \<le> of_int m / 2 ^ q"
  shows "round_double y \<le> of_int m / 2 ^ q"
proof -
  define e where "e = \<lfloor>log 2 \<bar>y\<bar>\<rfloor>"
  define p where "p = nat (52 - e)"
  have "e < int (53 - q)"
    unfolding e_def using assms(1,3) by (rule exponent_bound)
  then have e52: "e \<le> 52" and qp: "q \<le> p"
    using assms(2) by (simp_all add: p_def)
  have rd: "round_double y = of_int (round_half_even (y * 2 ^ p)) / 2 ^ p"
    unfolding p_def e_def using assms(1) e52[unfolded e_def] by (rule round_double_scaled)
  have split: "(2::real) ^ p = 2 ^ q * 2 ^ (p - q)"
    using qp by (simp add: power_add[symmetric])
  have "y * 2 ^ p \<le> (of_int m / 2 ^ q) * 2 ^ p"
    using assms(4) by (intro mult_right_mono) simp_all
  also have "\<dots> = of_int (m * 2 ^ (p - q))"
    by (simp add: split)
  finally have "round_half_even (y * 2 ^ p) \<le> m * 2 ^ (p - q)"
    by (rule round_half_even_le)
  then have "(of_int (round_half_even (y * 2 ^ p)) :: real) \<le> of_int (m * 2 ^ (p - q))"
    by (simp only: of_int_le_iff)
  then have "of_int (round_half_even (y * 2 ^ p)) / 2 ^ p \<le> (of_int (m * 2 ^ (p - q)) :: real) / 2 ^ p"
    by (intro divide_right_mono) simp_all
  also have "(of_int (m * 2 ^ (p - q)) :: real) / 2 ^ p = of_int m / 2 ^ q"
    by (simp add: split)
  finally show ?thesis
    unfolding rd .
qed

lemma round_double_ge_dyadic:
  assumes "y \<noteq> 0" and "q \<le> 52" and "\<bar>y\<bar> < 2 ^ (53 - q)" and "of_int m / 2 ^ q \<le> y"
  shows "of_int m / 2 ^ q \<le> round_double y"
proof -
  define e where "e = \<lfloor>log 2 \<bar>y\<bar>\<rfloor>"
  define p where "p = nat (52 - e)"
  have "e < int (53 - q)"
    unfolding e_def using assms(1,3) by (rule exponent_bound)
  then have e52: "e \<le> 52" and qp: "q \<le> p"
    using assms(2) by (simp_all add: p_def)
  have rd: "round_double y = of_int (round_half_even (y * 2 ^ p)) / 2 ^ p"
    unfolding p_def e_def using assms(1) e52[unfolded e_def] by (rule round_double_scaled)
  have split: "(2::real) ^ p = 2 ^ q * 2 ^ (p - q)"
    using qp by (simp add: power_add[symmetric])
  have "(of_int m / 2 ^ q) * 2 ^ p \<le> y * 2 ^ p"
    using assms(4) by (intro mult_right_mono) simp_all
  moreover have "(of_int m / 2 ^ q) * 2 ^ p = (of_int (m * 2 ^ (p - q)) :: real)"
    by (simp add: split)
  ultimately have "of_int (m * 2 ^ (p - q)) \<le> y * 2 ^ p"
    by simp
  then have "m * 2 ^ (p - q) \<le> round_half_even (y * 2 ^ p)"
    by (rule round_half_even_ge)
  then have "(of_int (m * 2 ^ (p - q)) :: real) \<le> of_int (round_half_even (y * 2 ^ p))"
    by (simp only: of_int_le_iff)
  then have "(of_int (m * 2 ^ (p - q)) :: real) / 2 ^ p \<le> of_int (round_half_even (y * 2 ^ p)) / 2 ^ p"
    by (intro divide_right_mono) simp_all
  moreover have "(of_int (m * 2 ^ (p - q)) :: real) / 2 ^ p = of_int m / 2 ^ q"
    by (simp add: split)
  ultimately show ?thesis
    unfolding rd by simp
qed

lemma binade_lower:
  assumes "y \<noteq> 0"
  shows "2 powr (of_int \<lfloor>log 2 \<bar>y\<bar>\<rfloor>) \<le> \<bar>y\<bar>"
proof -
  have "of_int \<lfloor>log 2 \<bar>y\<bar>\<rfloor> \<le> log 2 \<bar>y\<bar>"
    by (rule of_int_floor_le)
  then have "2 powr (of_int \<lfloor>log 2 \<bar>y\<bar>\<rfloor>) \<le> 2 powr (log 2 \<bar>y\<bar>)"
    by (simp only: powr_le_cancel_iff[of 2] one_less_numeral_iff semiring_norm)
  also have "2 powr (log 2 \<bar>y\<bar>) = \<bar>y\<bar>"
    using assms by simp
  finally show ?thesis .
qed

lemma binade_split:
  "(2::real) powr (of_int e) = 2 ^ 52 * 2 powr (of_int (e - 52))"
proof -
  have eq: "(of_int e :: real) = 52 + of_int (e - 52)" by simp
  have "(2::real) powr (of_int e) = 2 powr (52 + of_int (e - 52))"
    by (rule arg_cong[OF eq])
  also have "\<dots> = 2 powr 52 * 2 powr (of_int (e - 52))" by (rule powr_add)
  also have "(2::real) powr 52 = 2 ^ 52"
    using powr_realpow[of 2 52] by simp
  finally show ?thesis .
qed

lemma exponent_lower:
  assumes "2 ^ N \<le> \<bar>y\<bar>"
  shows "(2::real) ^ N \<le> 2 powr (of_int \<lfloor>log 2 \<bar>y\<bar>\<rfloor>)"
proof -
  have pos: "0 < \<bar>y\<bar>"
    using assms by (rule less_le_trans[rotated]) simp
  have "log 2 (2 ^ N) \<le> log 2 \<bar>y\<bar>"
    using assms pos by (subst log_le_cancel_iff) simp_all
  moreover have "log 2 ((2::real) ^ N) = real N"
    by (rule log_pow_cancel) simp_all
  ultimately have "real N \<le> log 2 \<bar>y\<bar>" by linarith
  then have "int N \<le> \<lfloor>log 2 \<bar>y\<bar>\<rfloor>"
    by (simp add: le_floor_iff)
  then have "real N \<le> of_int \<lfloor>log 2 \<bar>y\<bar>\<rfloor>"
    by linarith
  then have "(2::real) powr (real N) \<le> 2 powr (of_int \<lfloor>log 2 \<bar>y\<bar>\<rfloor>)"
    by (subst powr_le_cancel_iff) simp_all
  then show ?thesis
    by (simp add: powr_realpow)
qed

text \<open>Rounding does not leave the binade: a power of two is a double.\<close>

lemma round_double_le_large_negative:
  assumes "y \<le> - (2 ^ N)"
  shows "round_double y \<le> - (2 ^ N)"
proof -
  define e where "e = \<lfloor>log 2 \<bar>y\<bar>\<rfloor>"
  define u where "u = (2::real) powr (of_int (e - 52))"
  have neg: "y < 0"
    using assms by (rule le_less_trans) simp
  then have y0: "y \<noteq> 0" and ay: "\<bar>y\<bar> = - y"
    by simp_all
  have big: "2 ^ N \<le> \<bar>y\<bar>"
    using assms ay by simp
  have upos: "0 < u" by (simp add: u_def)
  have be: "2 powr (of_int e) \<le> \<bar>y\<bar>"
    unfolding e_def using y0 by (rule binade_lower)
  have sp: "(2::real) powr (of_int e) = 2 ^ 52 * u"
    unfolding u_def by (rule binade_split)
  have "2 ^ 52 * u \<le> - y" using be sp ay by simp
  then have "y \<le> of_int (- (2 ^ 52)) * u" by simp
  then have "y / u \<le> of_int (- (2 ^ 52))"
    using upos by (simp add: pos_divide_le_eq)
  then have "round_half_even (y / u) \<le> - (2 ^ 52)"
    by (rule round_half_even_le)
  then have "(of_int (round_half_even (y / u)) :: real) \<le> of_int (- (2 ^ 52))"
    by (simp only: of_int_le_iff)
  then have "of_int (round_half_even (y / u)) * u \<le> (of_int (- (2 ^ 52)) :: real) * u"
    using upos by (intro mult_right_mono) simp_all
  also have "(of_int (- (2 ^ 52)) :: real) * u = - (2 powr (of_int e))"
    unfolding sp by simp
  also have "\<dots> \<le> - (2 ^ N)"
    using exponent_lower[OF big] by (simp add: e_def)
  finally show ?thesis
    unfolding round_double_unfold[OF y0] e_def[symmetric] u_def[symmetric] .
qed

lemma round_double_ge_large_positive:
  assumes "2 ^ N \<le> y"
  shows "2 ^ N \<le> round_double y"
proof -
  define e where "e = \<lfloor>log 2 \<bar>y\<bar>\<rfloor>"
  define u where "u = (2::real) powr (of_int (e - 52))"
  have pos: "0 < y"
    using assms by (rule less_le_trans[rotated]) simp
  then have y0: "y \<noteq> 0" and ay: "\<bar>y\<bar> = y"
    by simp_all
  have big: "2 ^ N \<le> \<bar>y\<bar>"
    using assms ay by simp
  have upos: "0 < u" by (simp add: u_def)
  have be: "2 powr (of_int e) \<le> \<bar>y\<bar>"
    unfolding e_def using y0 by (rule binade_lower)
  have sp: "(2::real) powr (of_int e) = 2 ^ 52 * u"
    unfolding u_def by (rule binade_split)
  have "of_int (2 ^ 52) * u \<le> y" using be sp ay by simp
  then have "of_int (2 ^ 52) \<le> y / u"
    using upos by (simp add: pos_le_divide_eq)
  then have "2 ^ 52 \<le> round_half_even (y / u)"
    by (rule round_half_even_ge)
  then have "(of_int (2 ^ 52) :: real) \<le> of_int (round_half_even (y / u))"
    by (simp only: of_int_le_iff)
  then have "(of_int (2 ^ 52) :: real) * u \<le> of_int (round_half_even (y / u)) * u"
    using upos by (intro mult_right_mono) simp_all
  moreover have "(of_int (2 ^ 52) :: real) * u = 2 powr (of_int e)"
    unfolding sp by simp
  moreover have "(2::real) ^ N \<le> 2 powr (of_int e)"
    using exponent_lower[OF big] by (simp add: e_def)
  ultimately show ?thesis
    unfolding round_double_unfold[OF y0] e_def[symmetric] u_def[symmetric] by linarith
qed

lemma round_double_le_int:
  assumes "y \<noteq> 0" and "\<bar>y\<bar> < 2 ^ 53" and "y \<le> of_int m"
  shows "round_double y \<le> of_int m"
  using round_double_le_dyadic[of y 0 m] assms by simp

lemma round_double_ge_int:
  assumes "y \<noteq> 0" and "\<bar>y\<bar> < 2 ^ 53" and "of_int m \<le> y"
  shows "of_int m \<le> round_double y"
  using round_double_ge_dyadic[of y 0 m] assms by simp

lemma round_double_le_neg4:
  assumes "y \<le> - 4"
  shows "round_double y \<le> - 4"
  using round_double_le_large_negative[of y 2] assms by simp


lemma round_double_of_int:
  assumes "\<bar>n\<bar> < 2 ^ 53"
  shows "round_double (of_int n) = of_int n"
proof (cases "n = 0")
  case True
  then show ?thesis by (simp add: round_double_def)
next
  case False
  then have y0: "(of_int n :: real) \<noteq> 0" by simp
  have "(of_int \<bar>n\<bar> :: real) < of_int (2 ^ 53)"
    using assms by (simp only: of_int_less_iff)
  then have small: "\<bar>of_int n :: real\<bar> < 2 ^ 53" by simp
  have "round_double (of_int n) \<le> of_int n"
    using y0 small by (rule round_double_le_int) simp
  moreover have "of_int n \<le> round_double (of_int n)"
    using y0 small by (rule round_double_ge_int) simp
  ultimately show ?thesis by simp
qed

subsection \<open>The floor of the logarithm, by counting digits\<close>

lemma pos_of_scaled:
  fixes x :: real
  assumes "1 \<le> x * 10 ^ k"
  shows "0 < x"
proof -
  have "0 < x * 10 ^ k" using assms by linarith
  then show ?thesis by (simp add: zero_less_mult_iff)
qed

lemma below_one_of_scaled:
  fixes x :: real
  assumes "0 < k" and "x * 10 ^ k < 10"
  shows "x < 1"
proof -
  have ten: "(10::real) \<le> 10 ^ k"
    using power_increasing[of 1 k "10::real"] assms(1) by simp
  have "x * 10 ^ k < 10 ^ k"
    using assms(2) ten by linarith
  then show ?thesis
    using mult_less_cancel_right_pos[of "10 ^ k" x 1] by simp
qed

lemma interval_to_decimal_places_pos:
  "0 < x \<Longrightarrow> x < 1 \<Longrightarrow>
   interval_to_decimal_places x =
     Inr (min (max (- \<lfloor>round_double (log 10 x)\<rfloor> + 1) 1) 5)"
  by (simp add: interval_to_decimal_places_def math_log10_def math_floor_def Let_def)

lemma log10_scaled:
  assumes "0 < x"
  shows "log 10 (x * 10 ^ k) = log 10 x + real k"
proof -
  have "log 10 (x * 10 ^ k) = log 10 x + log 10 (10 ^ k)"
    using assms by (intro log_mult_pos) simp_all
  moreover have "log 10 ((10::real) ^ k) = real k"
    by (rule log_pow_cancel) simp_all
  ultimately show ?thesis by simp
qed

lemma log10_9: "log 10 9 \<le> 31 / 32"
proof -
  have "real 32 * log 10 9 = log 10 (9 ^ 32)"
    by (rule log_nat_power[symmetric]) simp
  also have "\<dots> \<le> log 10 (10 ^ 31)"
    by (subst log_le_cancel_iff) simp_all
  also have "log 10 ((10::real) ^ 31) = real 31"
    by (rule log_pow_cancel) simp_all
  finally show ?thesis by simp
qed

lemma log10_leading_digit:
  assumes "1 \<le> x * 10 ^ k" and "x * 10 ^ k \<le> 9"
  shows "- real k \<le> log 10 x" and "log 10 x \<le> - real k + 31 / 32"
proof -
  have x0: "0 < x" using assms(1) by (rule pos_of_scaled)
  have "0 \<le> log 10 (x * 10 ^ k)"
    using assms(1) by (subst zero_le_log_cancel_iff) simp_all
  then show "- real k \<le> log 10 x"
    unfolding log10_scaled[OF x0] by simp
  have "log 10 (x * 10 ^ k) \<le> log 10 9"
    using assms by (subst log_le_cancel_iff) simp_all
  then show "log 10 x \<le> - real k + 31 / 32"
    unfolding log10_scaled[OF x0] using log10_9 by simp
qed

text \<open>
  When the first non-zero decimal digit of \<open>x\<close> is its \<open>k\<close>-th and \<open>x\<close> is at most
  \<open>9 / 10 ^ k\<close>, the logarithm is far enough from the next integer for its double to have
  the same floor, \<open>- k\<close>.
\<close>

lemma floor_rounded_log10_digits:
  assumes "0 < k" and "int k < 2 ^ 47" and "1 \<le> x * 10 ^ k" and "x * 10 ^ k \<le> 9"
  shows "\<lfloor>round_double (log 10 x)\<rfloor> = - int k"
proof -
  define y where "y = log 10 x"
  have lo: "- real k \<le> y" and hi: "y \<le> - real k + 31 / 32"
    unfolding y_def using assms(3,4) by (rule log10_leading_digit)+
  have k1: "1 \<le> real k" using assms(1) by simp
  have y0: "y \<noteq> 0" using hi k1 by linarith
  have "real k < 2 ^ 47"
    using assms(2) by (metis of_int_less_iff of_int_numeral of_int_of_nat_eq of_int_power)
  then have small: "\<bar>y\<bar> < 2 ^ (53 - 5)"
    using lo hi k1 by simp
  have "of_int (- 32 * int k) / 2 ^ 5 \<le> y"
    using lo by simp
  then have "of_int (- 32 * int k) / 2 ^ 5 \<le> round_double y"
    using y0 small by (intro round_double_ge_dyadic) simp_all
  then have rlo: "of_int (- int k) \<le> round_double y"
    by simp
  have "y \<le> of_int (- 32 * int k + 31) / 2 ^ 5"
    using hi by simp
  then have "round_double y \<le> of_int (- 32 * int k + 31) / 2 ^ 5"
    using y0 small by (intro round_double_le_dyadic) simp_all
  then have rhi: "round_double y < of_int (- int k) + 1"
    by simp
  from rlo rhi show ?thesis
    unfolding y_def by (rule floor_unique)
qed

lemma interval_to_decimal_places_digits:
  assumes "0 < k" and "1 \<le> x * 10 ^ k" and "x * 10 ^ k \<le> 9"
  shows "interval_to_decimal_places x = Inr (min (int k + 1) 5)"
proof -
  have x0: "0 < x"
    using assms(2) by (rule pos_of_scaled)
  have x1: "x < 1"
    using assms(1,3) by (intro below_one_of_scaled[of k]) simp_all
  note conv = interval_to_decimal_places_pos[OF x0 x1]
  show ?thesis
  proof (cases "int k < 2 ^ 47")
    case True
    show ?thesis
      unfolding conv floor_rounded_log10_digits[OF assms(1) True assms(2,3)] by simp
  next
    case False
    then have "16 \<le> int k" by simp
    then have big: "16 \<le> real k" by linarith
    have "log 10 x \<le> - real k + 31 / 32"
      using assms(2,3) by (rule log10_leading_digit)
    then have "log 10 x \<le> - 4" using big by linarith
    then have "round_double (log 10 x) \<le> - 4"
      by (rule round_double_le_neg4)
    then have "\<lfloor>round_double (log 10 x)\<rfloor> \<le> - 4"
      by (simp add: floor_le_iff)
    then have a: "min (max (- \<lfloor>round_double (log 10 x)\<rfloor> + 1) 1) 5 = 5"
      by linarith
    have b: "min (int k + 1) 5 = 5"
      using \<open>16 \<le> int k\<close> by linarith
    show ?thesis
      unfolding conv a b ..
  qed
qed

lemma floor_log10_digits:
  assumes "1 \<le> x * 10 ^ k" and "x * 10 ^ k < 10"
  shows "\<lfloor>log 10 x\<rfloor> = - int k"
proof -
  have x0: "0 < x" using assms(1) by (rule pos_of_scaled)
  have "0 \<le> log 10 (x * 10 ^ k)"
    using assms(1) by (subst zero_le_log_cancel_iff) simp_all
  then have lo: "of_int (- int k) \<le> log 10 x"
    unfolding log10_scaled[OF x0] by simp
  have "log 10 (x * 10 ^ k) < log 10 10"
    using assms by (subst log_less_cancel_iff) simp_all
  then have hi: "log 10 x < of_int (- int k) + 1"
    unfolding log10_scaled[OF x0] by simp
  from lo hi show ?thesis by (rule floor_unique)
qed

lemma range_of_conversion:
  "0 < v \<Longrightarrow> \<exists>n. interval_to_decimal_places v = Inr n \<and> 1 \<le> n \<and> n \<le> 5"
  by (simp add: interval_to_decimal_places_def math_log10_def math_floor_def Let_def)

lemma interval_to_decimal_places_Inr:
  "interval_to_decimal_places v = Inr d \<Longrightarrow> 1 \<le> d \<and> d \<le> 5"
  by (auto simp: interval_to_decimal_places_def math_log10_def Let_def split: if_splits)


subsection \<open>A double just below a power of ten\<close>




subsection \<open>The conversion\<close>




text \<open>
  C5. The intervals 0.1, 0.01, 0.001 and 0.0001 convert to 2, 3, 4 and 5 decimal
  places.
\<close>

theorem interval_to_decimal_places_decades:
  "interval_to_decimal_places 0.1 = Inr 2 \<and>
   interval_to_decimal_places 0.01 = Inr 3 \<and>
   interval_to_decimal_places 0.001 = Inr 4 \<and>
   interval_to_decimal_places 0.0001 = Inr 5"
  using interval_to_decimal_places_digits[of 1 "0.1"]
    interval_to_decimal_places_digits[of 2 "0.01"]
    interval_to_decimal_places_digits[of 3 "0.001"]
    interval_to_decimal_places_digits[of 4 "0.0001"]
  by simp

text \<open>
  C4. Every strictly positive interval, however small, converts to a number of decimal
  places between 1 and 5. The interval 0.000001 converts to 5. On the LL00 scale the
  position 0.999 lies in the subsection that begins at 0.998, whose finest interval is
  0.00001: the unclamped count is 6, and \<open>get_decimal_places\<close> returns 5.
\<close>

theorem interval_to_decimal_places_clamped:
  "(0 < interval \<longrightarrow>
      (\<exists>n. interval_to_decimal_places interval = Inr n \<and> 1 \<le> n \<and> n \<le> 5)) \<and>
   interval_to_decimal_places 0.000001 = Inr 5 \<and>
   find_active_subsection create_ll00_scale_calculator 0.999 =
     Some \<lparr> beginsub = 0.998, intervals = [Some 0.0005, Some 0.0001, Some 0.00005, Some 0.00001] \<rparr> \<and>
   - \<lfloor>log 10 (0.00001::real)\<rfloor> + 1 = 6 \<and>
   get_decimal_places create_ll00_scale_calculator 0.999 = Inr 5"
proof (intro conjI impI)
  assume "0 < interval"
  then show "\<exists>n. interval_to_decimal_places interval = Inr n \<and> 1 \<le> n \<and> n \<le> 5"
    by (rule range_of_conversion)
next
  show "interval_to_decimal_places 0.000001 = Inr 5"
    using interval_to_decimal_places_digits[of 6 "0.000001"] by simp
next
  show "find_active_subsection create_ll00_scale_calculator 0.999 =
     Some \<lparr> beginsub = 0.998, intervals = [Some 0.0005, Some 0.0001, Some 0.00005, Some 0.00001] \<rparr>"
    by (simp add: calculator_defs create_ll00_scale_calculator_def ll00_scale_definition_def)
next
  show "- \<lfloor>log 10 (0.00001::real)\<rfloor> + 1 = 6"
    using floor_log10_digits[of "0.00001" 5] by simp
next
  show "get_decimal_places create_ll00_scale_calculator 0.999 = Inr 5"
    using interval_to_decimal_places_digits[of 5 "0.00001"]
    by (simp add: calculator_defs create_ll00_scale_calculator_def ll00_scale_definition_def)
qed

theorem interval_to_decimal_places_clamped_witness:
  "(0::real) < 1 / 1000000000 \<and>
   (\<exists>n. interval_to_decimal_places (1 / 1000000000) = Inr n \<and> 1 \<le> n \<and> n \<le> 5)"
  using interval_to_decimal_places_clamped[of "1 / 1000000000"] by simp

subsection \<open>The active subsection\<close>

lemma find_active_loop_sorted:
  "sorted (map beginsub xs) \<Longrightarrow>
   find_active_loop p a xs =
     (let qualifying = filter (\<lambda>s. beginsub s \<le> p) xs
      in if qualifying = [] then a else Some (last qualifying))"
proof (induction xs arbitrary: a)
  case Nil
  show ?case by simp
next
  case (Cons s rest)
  from Cons.prems have srt: "sorted (map beginsub rest)"
    and le: "\<forall>t\<in>set rest. beginsub s \<le> beginsub t"
    by simp_all
  show ?case
  proof (cases "beginsub s \<le> p")
    case True
    then show ?thesis
      using Cons.IH[OF srt, of "Some s"] by (simp add: Let_def)
  next
    case False
    then have "filter (\<lambda>t. beginsub t \<le> p) rest = []"
      using le by (auto simp: filter_empty_conv)
    with False show ?thesis by simp
  qed
qed

lemma sorted_init: "sorted (map beginsub (subsections (init scale_def)))"
  by (simp add: init_def)

lemma find_active_loop_mem:
  "find_active_loop p a xs = Some s \<Longrightarrow> a = Some s \<or> s \<in> set xs"
  by (induction xs arbitrary: a) (auto split: if_splits)

lemma find_active_loop_precedes:
  "\<forall>s\<in>set xs. p < beginsub s \<Longrightarrow> find_active_loop p a xs = a"
  by (cases xs) simp_all

text \<open>
  C3. The subsections of a constructed calculator are sorted by \<open>beginsub\<close>, and at every
  position the active subsection is the last one of that sorted list whose \<open>beginsub\<close> is
  at most the position (none when there is no such subsection). With subsections
  beginning at 1, 2, 4 and 10, whatever their intervals, the position 1.999 selects the
  one beginning at 1, and the positions 2.0 and 3.999 the one beginning at 2.
\<close>

theorem find_active_subsection_last_qualifying:
  "find_active_subsection (init scale_def) position =
     (let qualifying = filter (\<lambda>s. beginsub s \<le> position) (subsections (init scale_def))
      in if qualifying = [] then None else Some (last qualifying)) \<and>
   sorted (map beginsub (subsections (init scale_def))) \<and>
   (let c = init \<lparr> sd_subsections =
                     [ \<lparr> beginsub = 1, intervals = i1 \<rparr>, \<lparr> beginsub = 2, intervals = i2 \<rparr>,
                       \<lparr> beginsub = 4, intervals = i3 \<rparr>, \<lparr> beginsub = 10, intervals = i4 \<rparr> ],
                   sd_beginscale = b, sd_endscale = e, sd_xfactor = xf \<rparr>
    in find_active_subsection c 1.999 = Some \<lparr> beginsub = 1, intervals = i1 \<rparr> \<and>
       find_active_subsection c 2.0 = Some \<lparr> beginsub = 2, intervals = i2 \<rparr> \<and>
       find_active_subsection c 3.999 = Some \<lparr> beginsub = 2, intervals = i2 \<rparr>)"
proof (intro conjI)
  show "find_active_subsection (init scale_def) position =
     (let qualifying = filter (\<lambda>s. beginsub s \<le> position) (subsections (init scale_def))
      in if qualifying = [] then None else Some (last qualifying))"
    unfolding find_active_subsection_def
    by (rule find_active_loop_sorted) (rule sorted_init)
next
  show "sorted (map beginsub (subsections (init scale_def)))"
    by (rule sorted_init)
next
  show "let c = init \<lparr> sd_subsections =
                     [ \<lparr> beginsub = 1, intervals = i1 \<rparr>, \<lparr> beginsub = 2, intervals = i2 \<rparr>,
                       \<lparr> beginsub = 4, intervals = i3 \<rparr>, \<lparr> beginsub = 10, intervals = i4 \<rparr> ],
                   sd_beginscale = b, sd_endscale = e, sd_xfactor = xf \<rparr>
    in find_active_subsection c 1.999 = Some \<lparr> beginsub = 1, intervals = i1 \<rparr> \<and>
       find_active_subsection c 2.0 = Some \<lparr> beginsub = 2, intervals = i2 \<rparr> \<and>
       find_active_subsection c 3.999 = Some \<lparr> beginsub = 2, intervals = i2 \<rparr>"
    by (simp add: find_active_subsection_def init_def)
qed

subsection \<open>The finest interval\<close>

lemma first_not_none_rev:
  "first_not_none (rev xs) =
     (let present = filter (\<lambda>i. i \<noteq> None) xs
      in if present = [] then None else last present)"
proof (induction xs rule: rev_induct)
  case Nil
  show ?case by simp
next
  case (snoc x xs)
  then show ?case by (cases x) (simp_all add: Let_def)
qed

lemma first_not_none_None: "first_not_none xs = None \<longleftrightarrow> (\<forall>i\<in>set xs. i = None)"
  by (induction xs rule: first_not_none.induct) simp_all

lemma first_not_none_mem: "first_not_none xs = Some v \<Longrightarrow> Some v \<in> set xs"
  by (induction xs rule: first_not_none.induct) auto

lemma get_smallest_interval_None:
  "get_smallest_interval sub = None \<longleftrightarrow> (\<forall>i\<in>set (intervals sub). i = None)"
  by (simp add: get_smallest_interval_def first_not_none_None)

text \<open>
  C6. The finest interval of a subsection is the last entry of its \<open>intervals\<close> that is
  not \<open>None\<close>: the first one met scanning from the end. \<open>[1, None, None, 0.2]\<close> gives 0.2,
  \<open>[1, None, 0.5, 0.1]\<close> gives 0.1, four absent entries give \<open>None\<close>, and \<open>None\<close> is
  returned exactly when every entry is absent.
\<close>

theorem get_smallest_interval_last_present:
  "get_smallest_interval sub =
     (let present = filter (\<lambda>i. i \<noteq> None) (intervals sub)
      in if present = [] then None else last present) \<and>
   get_smallest_interval \<lparr> beginsub = b, intervals = [Some 1, None, None, Some 0.2] \<rparr> = Some 0.2 \<and>
   get_smallest_interval \<lparr> beginsub = b, intervals = [Some 1, None, Some 0.5, Some 0.1] \<rparr> = Some 0.1 \<and>
   get_smallest_interval \<lparr> beginsub = b, intervals = [None, None, None, None] \<rparr> = None \<and>
   (get_smallest_interval sub = None \<longleftrightarrow> (\<forall>i\<in>set (intervals sub). i = None))"
proof (intro conjI)
  show "get_smallest_interval sub =
     (let present = filter (\<lambda>i. i \<noteq> None) (intervals sub)
      in if present = [] then None else last present)"
    unfolding get_smallest_interval_def by (rule first_not_none_rev)
  show "get_smallest_interval sub = None \<longleftrightarrow> (\<forall>i\<in>set (intervals sub). i = None)"
    by (rule get_smallest_interval_None)
qed (simp_all add: get_smallest_interval_def)

theorem get_smallest_interval_last_present_witness:
  "intervals \<lparr> beginsub = 6, intervals = [None, None, None, None] \<rparr> = [None, None, None, None] \<and>
   get_smallest_interval \<lparr> beginsub = 6, intervals = [None, None, None, None] \<rparr> = None"
proof -
  have h: "\<forall>i\<in>set (intervals \<lparr> beginsub = 6, intervals = [None, None, None, None] \<rparr>). i = None"
    by simp
  have "get_smallest_interval \<lparr> beginsub = 6, intervals = [None, None, None, None] \<rparr> = None \<longleftrightarrow>
        (\<forall>i\<in>set (intervals \<lparr> beginsub = 6, intervals = [None, None, None, None] \<rparr>). i = None)"
    by (rule get_smallest_interval_last_present
      [of "\<lparr> beginsub = 6, intervals = [None, None, None, None] \<rparr>",
        THEN conjunct2, THEN conjunct2, THEN conjunct2, THEN conjunct2])
  with h show ?thesis by simp
qed

subsection \<open>Decimal places at a position\<close>

text \<open>
  C2, as the code has it. The C scale ends at 10 (\<open>endscale = 10\<close>), and the interval 0.05
  converts to 3 decimal places (\<open>\<lfloor>log\<^sub>1\<^sub>0 0.05\<rfloor> = - 2\<close>). On the C scale
  \<open>get_decimal_places\<close> returns 3 at the positions 1.0, 5.0 and 9.0, and the
  out-of-bounds default 2 at the position 50.0.
\<close>

theorem c_scale_decimal_places:
  "get_decimal_places create_c_scale_calculator 1.0 = Inr 3 \<and>
   get_decimal_places create_c_scale_calculator 5.0 = Inr 3 \<and>
   get_decimal_places create_c_scale_calculator 9.0 = Inr 3 \<and>
   get_decimal_places create_c_scale_calculator 50.0 = Inr 2"
  using interval_to_decimal_places_digits[of 2 "0.01"]
    interval_to_decimal_places_digits[of 2 "0.05"]
  by (simp add: calculator_defs create_c_scale_calculator_def c_scale_definition_def)

text \<open>
  C2, as stated: the values 3, 2, 2 and 1 at the positions 1.0, 5.0, 9.0 and 50.0 are not
  what the calculator of the C scale returns.
\<close>

theorem c_scale_decimal_places_not_3_2_2_1:
  "\<not> (get_decimal_places create_c_scale_calculator 1.0 = Inr 3 \<and>
      get_decimal_places create_c_scale_calculator 5.0 = Inr 2 \<and>
      get_decimal_places create_c_scale_calculator 9.0 = Inr 2 \<and>
      get_decimal_places create_c_scale_calculator 50.0 = Inr 1)"
  by (simp add: calculator_defs create_c_scale_calculator_def c_scale_definition_def)

text \<open>
  C7. \<open>get_decimal_places\<close> returns 2, and raises nothing, in each degenerate case: the
  position is below \<open>beginscale\<close> or above \<open>endscale\<close>; the position is in bounds and
  precedes the \<open>beginsub\<close> of every subsection; the active subsection has no interval
  that is present.
\<close>

theorem get_decimal_places_defaults:
  "(position < beginscale self \<or> position > endscale self \<longrightarrow>
      get_decimal_places self position = Inr 2) \<and>
   (beginscale self \<le> position \<and> position \<le> endscale self \<and>
    (\<forall>s\<in>set (subsections self). position < beginsub s) \<longrightarrow>
      get_decimal_places self position = Inr 2) \<and>
   (find_active_subsection self position = Some active \<and>
    (\<forall>i\<in>set (intervals active). i = None) \<longrightarrow>
      get_decimal_places self position = Inr 2)"
  by (auto simp: get_decimal_places_def find_active_subsection_def find_active_loop_precedes
        get_smallest_interval_None[symmetric])

theorem get_decimal_places_defaults_witness:
  "((0 < beginscale create_c_scale_calculator \<or> 0 > endscale create_c_scale_calculator) \<and>
    get_decimal_places create_c_scale_calculator 0 = Inr 2) \<and>
   (let self = init \<lparr> sd_subsections =
                        [ \<lparr> beginsub = 2, intervals = [Some 1, Some 0.5, Some 0.1, Some 0.02] \<rparr>,
                          \<lparr> beginsub = 4, intervals = [Some 1, Some 0.5, Some 0.1, Some 0.05] \<rparr> ],
                      sd_beginscale = 1, sd_endscale = 10, sd_xfactor = None \<rparr>
    in (beginscale self \<le> 1.5 \<and> 1.5 \<le> endscale self \<and>
        (\<forall>s\<in>set (subsections self). 1.5 < beginsub s)) \<and>
       get_decimal_places self 1.5 = Inr 2) \<and>
   (let self = init \<lparr> sd_subsections =
                        [ \<lparr> beginsub = 1, intervals = [Some 1, Some 0.5, Some 0.1, Some 0.05] \<rparr>,
                          \<lparr> beginsub = 3, intervals = [None, None, None, None] \<rparr> ],
                      sd_beginscale = 1, sd_endscale = 10, sd_xfactor = None \<rparr>;
        active = \<lparr> beginsub = 3, intervals = [None, None, None, None] \<rparr>
    in (find_active_subsection self 5 = Some active \<and>
        (\<forall>i\<in>set (intervals active). i = None)) \<and>
       get_decimal_places self 5 = Inr 2)"
proof -
  define c2 where "c2 = init \<lparr> sd_subsections =
                        [ \<lparr> beginsub = 2, intervals = [Some 1, Some 0.5, Some 0.1, Some 0.02] \<rparr>,
                          \<lparr> beginsub = 4, intervals = [Some 1, Some 0.5, Some 0.1, Some 0.05] \<rparr> ],
                      sd_beginscale = 1, sd_endscale = 10, sd_xfactor = None \<rparr>"
  define c3 where "c3 = init \<lparr> sd_subsections =
                        [ \<lparr> beginsub = 1, intervals = [Some 1, Some 0.5, Some 0.1, Some 0.05] \<rparr>,
                          \<lparr> beginsub = 3, intervals = [None, None, None, None] \<rparr> ],
                      sd_beginscale = 1, sd_endscale = 10, sd_xfactor = None \<rparr>"
  define a3 where "a3 = \<lparr> beginsub = 3, intervals = [None :: real option, None, None, None] \<rparr>"
  have h1: "0 < beginscale create_c_scale_calculator \<or> 0 > endscale create_c_scale_calculator"
    by (simp add: create_c_scale_calculator_def init_def c_scale_definition_def)
  have h2: "beginscale c2 \<le> 1.5 \<and> 1.5 \<le> endscale c2 \<and>
            (\<forall>s\<in>set (subsections c2). 1.5 < beginsub s)"
    by (simp add: c2_def init_def)
  have h3: "find_active_subsection c3 5 = Some a3 \<and> (\<forall>i\<in>set (intervals a3). i = None)"
    by (simp add: c3_def a3_def init_def find_active_subsection_def)
  have r1: "get_decimal_places create_c_scale_calculator 0 = Inr 2"
    using get_decimal_places_defaults[of 0 create_c_scale_calculator, THEN conjunct1] h1
    by (rule mp)
  have r2: "get_decimal_places c2 1.5 = Inr 2"
    using get_decimal_places_defaults[of "1.5" c2, THEN conjunct2, THEN conjunct1] h2
    by (rule mp)
  have r3: "get_decimal_places c3 5 = Inr 2"
    using get_decimal_places_defaults[of 5 c3 a3, THEN conjunct2, THEN conjunct2] h3
    by (rule mp)
  have "((0 < beginscale create_c_scale_calculator \<or> 0 > endscale create_c_scale_calculator) \<and>
         get_decimal_places create_c_scale_calculator 0 = Inr 2) \<and>
        (let self = c2
         in (beginscale self \<le> 1.5 \<and> 1.5 \<le> endscale self \<and>
             (\<forall>s\<in>set (subsections self). 1.5 < beginsub s)) \<and>
            get_decimal_places self 1.5 = Inr 2) \<and>
        (let self = c3; active = a3
         in (find_active_subsection self 5 = Some active \<and>
             (\<forall>i\<in>set (intervals active). i = None)) \<and>
            get_decimal_places self 5 = Inr 2)"
    unfolding Let_def
    by (intro conjI h1 r1 h2 r2 h3 r3)
  then show ?thesis
    unfolding c2_def c3_def a3_def .
qed

lemma get_decimal_places_Inr:
  "get_decimal_places self p = Inr d \<Longrightarrow> 1 \<le> d \<and> d \<le> 5"
  by (auto simp: get_decimal_places_def dest: interval_to_decimal_places_Inr
        split: if_splits option.splits)

lemma get_decimal_places_range:
  assumes "\<forall>s\<in>set (subsections self). \<forall>v. Some v \<in> set (intervals s) \<longrightarrow> 0 < v"
  shows "\<exists>n. get_decimal_places self p = Inr n \<and> 1 \<le> n \<and> n \<le> 5"
proof (cases "find_active_subsection self p")
  case None
  then show ?thesis by (simp add: get_decimal_places_def)
next
  case (Some s)
  then have mem: "s \<in> set (subsections self)"
    using find_active_loop_mem[of p None "subsections self" s]
    by (simp add: find_active_subsection_def)
  show ?thesis
  proof (cases "get_smallest_interval s")
    case None
    with Some show ?thesis by (simp add: get_decimal_places_def)
  next
    case (Some v)
    then have "Some v \<in> set (intervals s)"
      using first_not_none_mem[of "rev (intervals s)" v]
      by (simp add: get_smallest_interval_def)
    with assms mem have "0 < v" by blast
    from range_of_conversion[OF this] Some \<open>find_active_subsection self p = Some s\<close>
    show ?thesis
      by (auto simp: get_decimal_places_def)
  qed
qed

text \<open>
  C9. When every interval that is present in the scale definition is strictly positive,
  \<open>get_decimal_places\<close> of the constructed calculator returns, at every position, an
  integer between 1 and 5 (and raises nothing).
\<close>

theorem get_decimal_places_in_1_5:
  assumes "\<forall>s\<in>set (sd_subsections scale_def). \<forall>v. Some v \<in> set (intervals s) \<longrightarrow> 0 < v"
  shows "\<exists>n. get_decimal_places (init scale_def) position = Inr n \<and> 1 \<le> n \<and> n \<le> 5"
  using assms by (intro get_decimal_places_range) (simp add: init_def)

theorem get_decimal_places_in_1_5_witness:
  "\<exists>n. get_decimal_places (init k_scale_definition) 7 = Inr n \<and> 1 \<le> n \<and> n \<le> 5"
proof -
  have h: "\<forall>s\<in>set (sd_subsections k_scale_definition).
             \<forall>v. Some v \<in> set (intervals s) \<longrightarrow> 0 < v"
    by (auto simp: k_scale_definition_def)
  show ?thesis by (rule get_decimal_places_in_1_5[OF h, of 7])
qed

subsection \<open>The order of the subsections in the definition\<close>

lemma sort_key_distinct_perm:
  assumes "distinct (map f xs)" and "mset ys = mset xs"
  shows "sort_key f ys = sort_key f xs"
proof (rule sort_key_inj_key_eq)
  show "mset ys = mset (sort_key f xs)"
    using assms(2) by simp
  have "set ys = set xs"
    using assms(2) by (rule mset_eq_setD)
  then show "inj_on f (set ys)"
    using assms(1) by (simp add: distinct_map)
  show "sorted (map f (sort_key f xs))" by simp
qed

text \<open>
  C10. When the subsections of a scale definition have pairwise distinct \<open>beginsub\<close>
  values, listing them in another order (any permutation \<open>ys\<close> of the list \<open>xs\<close>) gives
  the same sorted list in the constructed calculator, and so the same result of
  \<open>get_decimal_places\<close> at every position.
\<close>

theorem get_decimal_places_permutation:
  assumes "distinct (map beginsub xs)" and "mset ys = mset xs"
  shows "subsections (init (scale_def\<lparr>sd_subsections := ys\<rparr>)) =
           subsections (init (scale_def\<lparr>sd_subsections := xs\<rparr>)) \<and>
         get_decimal_places (init (scale_def\<lparr>sd_subsections := ys\<rparr>)) position =
           get_decimal_places (init (scale_def\<lparr>sd_subsections := xs\<rparr>)) position"
  using sort_key_distinct_perm[OF assms] by (simp add: init_def)

theorem get_decimal_places_permutation_witness:
  "(let xs = sd_subsections ll00_scale_definition; ys = rev xs
    in distinct (map beginsub xs) \<and> mset ys = mset xs \<and> ys \<noteq> xs \<and>
       get_decimal_places (init (ll00_scale_definition\<lparr>sd_subsections := ys\<rparr>)) 0.996 =
         get_decimal_places (init (ll00_scale_definition\<lparr>sd_subsections := xs\<rparr>)) 0.996 \<and>
       get_decimal_places (init (ll00_scale_definition\<lparr>sd_subsections := ys\<rparr>)) 0.996 = Inr 5)"
proof -
  define xs where "xs = sd_subsections ll00_scale_definition"
  have d: "distinct (map beginsub xs)"
    by (simp add: xs_def ll00_scale_definition_def)
  have m: "mset (rev xs) = mset xs"
    by (rule mset_rev)
  have n: "rev xs \<noteq> xs"
    by (simp add: xs_def ll00_scale_definition_def)
  have e: "get_decimal_places (init (ll00_scale_definition\<lparr>sd_subsections := xs\<rparr>)) 0.996 = Inr 5"
    using interval_to_decimal_places_digits[of 5 "0.00002"]
    by (simp add: xs_def calculator_defs ll00_scale_definition_def)
  show ?thesis
    unfolding Let_def xs_def[symmetric]
    using d m n e get_decimal_places_permutation[OF d m, of ll00_scale_definition "0.996"]
    by simp
qed

subsection \<open>The formatted value\<close>

lemma digit_value_digit_char: "n < 10 \<Longrightarrow> digit_value (digit_char n) = n"
proof -
  assume "n < 10"
  then have "n \<in> {0,1,2,3,4,5,6,7,8,9}" by auto
  then show ?thesis
    by (auto simp: digit_value_def digit_char_def)
qed

lemma is_digit_digit_char: "n < 10 \<Longrightarrow> is_digit (digit_char n)"
proof -
  assume "n < 10"
  then have "n \<in> {0,1,2,3,4,5,6,7,8,9}" by auto
  then show ?thesis
    by (auto simp: is_digit_def digit_char_def)
qed

lemma digits_value_snoc: "digits_value (cs @ [c]) = 10 * digits_value cs + digit_value c"
  by (simp add: digits_value_def)

lemma digits_value_decimal_digits: "digits_value (decimal_digits n) = n"
proof (induction n rule: decimal_digits.induct)
  case (1 n)
  show ?case
  proof (cases "n < 10")
    case True
    then show ?thesis
      by (simp add: decimal_digits.simps[of n] digits_value_def digit_value_digit_char)
  next
    case False
    then show ?thesis
      using 1 by (simp add: decimal_digits.simps[of n] digits_value_snoc digit_value_digit_char)
  qed
qed

lemma decimal_digits_all_digits: "\<forall>c\<in>set (decimal_digits n). is_digit c"
proof (induction n rule: decimal_digits.induct)
  case (1 n)
  show ?case
  proof (cases "n < 10")
    case True
    then show ?thesis
      by (simp add: decimal_digits.simps[of n] is_digit_digit_char)
  next
    case False
    then show ?thesis
      using 1 by (simp add: decimal_digits.simps[of n] is_digit_digit_char)
  qed
qed

lemma length_decimal_digits: "0 < k \<Longrightarrow> n < 10 ^ k \<Longrightarrow> length (decimal_digits n) \<le> k"
proof (induction n arbitrary: k rule: decimal_digits.induct)
  case (1 n)
  show ?case
  proof (cases "n < 10")
    case True
    then show ?thesis
      using "1.prems" by (simp add: decimal_digits.simps[of n])
  next
    case False
    then obtain j where k: "k = Suc j" and j: "0 < j"
      using "1.prems" by (cases k; cases "k - 1") auto
    then have "n div 10 < 10 ^ j"
      using "1.prems" by (simp add: less_mult_imp_div_less mult.commute)
    from "1.IH"[OF False j this] show ?thesis
      using False k by (simp add: decimal_digits.simps[of n])
  qed
qed

lemma digits_value_zeros: "digits_value (replicate m (CHR ''0'') @ cs) = digits_value cs"
proof -
  have "foldl (\<lambda>acc c. 10 * acc + digit_value c) 0 (replicate m (CHR ''0'')) = 0"
  proof (induction m)
    case 0
    show ?case by simp
  next
    case (Suc m)
    have "replicate (Suc m) (CHR ''0'') = replicate m (CHR ''0'') @ [CHR ''0'']"
      by (simp add: replicate_append_same)
    then show ?case
      using Suc by (simp only: foldl_append) (simp add: digit_value_def)
  qed
  then show ?thesis by (simp add: digits_value_def)
qed

lemma round_half_even_close: "\<bar>of_int (round_half_even y) - y\<bar> \<le> 1 / 2"
proof -
  have lo: "of_int \<lfloor>y\<rfloor> \<le> y" and hi: "y < of_int \<lfloor>y\<rfloor> + 1"
    by linarith+
  from round_half_even_cases[of y] show ?thesis
  proof
    assume "round_half_even y = \<lfloor>y\<rfloor> \<and> y - of_int \<lfloor>y\<rfloor> \<le> 1 / 2"
    then show ?thesis using lo by simp
  next
    assume "round_half_even y = \<lfloor>y\<rfloor> + 1 \<and> 1 / 2 \<le> y - of_int \<lfloor>y\<rfloor>"
    then show ?thesis using hi by simp
  qed
qed

lemma round_half_even_nonneg:
  assumes "0 \<le> y"
  shows "0 \<le> round_half_even y"
proof -
  have "0 \<le> \<lfloor>y\<rfloor>" using assms by simp
  then show ?thesis
    using round_half_even_cases[of y] by linarith
qed

lemma is_digit_zero: "is_digit (CHR ''0'')"
  by (simp add: is_digit_def)

lemma format_fixed_shape:
  assumes "0 < prec" and "0 \<le> magnitude"
  shows "\<exists>whole frac.
           format_fixed prec negative magnitude =
             (if negative then ''-'' else '''') @ whole @ ''.'' @ frac \<and>
           length frac = prec \<and>
           (\<forall>c\<in>set (whole @ frac). is_digit c) \<and>
           \<bar>real (digits_value whole) + real (digits_value frac) / 10 ^ prec - magnitude\<bar>
             \<le> 1 / (2 * 10 ^ prec)"
proof -
  define scaled where "scaled = nat (round_half_even (magnitude * 10 ^ prec))"
  define whole where "whole = decimal_digits (scaled div 10 ^ prec)"
  define low where "low = decimal_digits (scaled mod 10 ^ prec)"
  define frac where "frac = replicate (prec - length low) (CHR ''0'') @ low"
  have fmt: "format_fixed prec negative magnitude =
               (if negative then ''-'' else '''') @ whole @ ''.'' @ frac"
    using assms(1) by (simp add: format_fixed_def Let_def scaled_def whole_def low_def frac_def)
  have "length low \<le> prec"
    unfolding low_def using assms(1) by (intro length_decimal_digits) simp_all
  then have len: "length frac = prec"
    by (simp add: frac_def)
  have dig: "\<forall>c\<in>set (whole @ frac). is_digit c"
    using decimal_digits_all_digits[of "scaled div 10 ^ prec"]
      decimal_digits_all_digits[of "scaled mod 10 ^ prec"]
    by (auto simp: whole_def frac_def low_def is_digit_zero)
  have vw: "digits_value whole = scaled div 10 ^ prec"
    by (simp add: whole_def digits_value_decimal_digits)
  have vf: "digits_value frac = scaled mod 10 ^ prec"
    by (simp add: frac_def low_def digits_value_zeros digits_value_decimal_digits)
  have "real (scaled div 10 ^ prec * 10 ^ prec + scaled mod 10 ^ prec) = real scaled"
    by (simp only: div_mult_mod_eq)
  then have "real (scaled div 10 ^ prec) * 10 ^ prec + real (scaled mod 10 ^ prec) = real scaled"
    by simp
  then have sum: "real (digits_value whole) + real (digits_value frac) / 10 ^ prec
                  = real scaled / 10 ^ prec"
    unfolding vw vf by (simp add: field_simps)
  have "0 \<le> round_half_even (magnitude * 10 ^ prec)"
    using assms(2) by (intro round_half_even_nonneg) simp
  then have "real scaled = of_int (round_half_even (magnitude * 10 ^ prec))"
    by (simp add: scaled_def)
  then have "\<bar>real scaled - magnitude * 10 ^ prec\<bar> \<le> 1 / 2"
    using round_half_even_close[of "magnitude * 10 ^ prec"] by simp
  then have "\<bar>real scaled - magnitude * 10 ^ prec\<bar> / 10 ^ prec \<le> (1 / 2) / 10 ^ prec"
    by (intro divide_right_mono) simp_all
  moreover have "\<bar>real scaled - magnitude * 10 ^ prec\<bar> / 10 ^ prec
                 = \<bar>real scaled / 10 ^ prec - magnitude\<bar>"
  proof -
    have "\<bar>real scaled - magnitude * 10 ^ prec\<bar> / 10 ^ prec
          = \<bar>(real scaled - magnitude * 10 ^ prec) / 10 ^ prec\<bar>"
      by simp
    also have "(real scaled - magnitude * 10 ^ prec) / 10 ^ prec
               = real scaled / 10 ^ prec - magnitude"
      by (simp add: diff_divide_distrib)
    finally show ?thesis .
  qed
  ultimately have "\<bar>real scaled / 10 ^ prec - magnitude\<bar> \<le> 1 / (2 * 10 ^ prec)"
    by simp
  with fmt len dig sum show ?thesis
    by (intro exI[of _ whole] exI[of _ frac]) simp
qed

lemma float_to_format_nonneg:
  "float_to_format position = Inr (negative, magnitude) \<Longrightarrow> 0 \<le> magnitude"
  by (cases position) (auto split: sum.splits)

lemma float_of_int_small:
  assumes "\<bar>n\<bar> < 2 ^ 53"
  shows "float_of_int n = Inr (of_int n)"
proof -
  have "(of_int \<bar>n\<bar> :: real) < of_int (2 ^ 53)"
    using assms by (simp only: of_int_less_iff)
  then have "\<bar>of_int n :: real\<bar> < 2 ^ 53" by simp
  also have "(2::real) ^ 53 \<le> 2 ^ 1024"
    by (rule power_increasing) simp_all
  finally have "\<not> (2 ^ 1024 \<le> \<bar>of_int n :: real\<bar>)" by simp
  then show ?thesis
    unfolding float_of_int_def round_double_of_int[OF assms] Let_def by (simp only: if_False)
qed

lemma float_of_int_overflow:
  assumes "2 ^ 1024 \<le> n"
  shows "float_of_int n = Inl OverflowError"
proof -
  have "(of_int (2 ^ 1024) :: real) \<le> of_int n"
    using assms by (simp only: of_int_le_iff)
  then have "(2::real) ^ 1024 \<le> of_int n" by simp
  then have "(2::real) ^ 1024 \<le> round_double (of_int n)"
    by (rule round_double_ge_large_positive)
  then have "(2::real) ^ 1024 \<le> \<bar>round_double (of_int n)\<bar>" by linarith
  then show ?thesis
    unfolding float_of_int_def Let_def by (simp only: if_True)
qed

lemma round_double_2_53_plus_1: "round_double 9007199254740993 = 9007199254740992"
proof -
  have "\<lfloor>log 2 \<bar>9007199254740993 :: real\<bar>\<rfloor> = 53"
    using floor_log_eq_powr_iff[of "9007199254740993 :: real" 2 53] by simp
  then show ?thesis
    using round_double_unfold[of "9007199254740993"]
    by (simp add: round_half_even_def Let_def)
qed

lemma replicate_2: "replicate 2 c = [c, c]"
  by (simp add: numeral_2_eq_2)

lemma replicate_3: "replicate 3 c = [c, c, c]"
  by (simp add: numeral_3_eq_3)

lemma c_scale_out_of_bounds:
  "x < 1 \<or> 10 < x \<Longrightarrow> get_decimal_places create_c_scale_calculator x = Inr 2"
  by (simp add: get_decimal_places_def create_c_scale_calculator_def init_def
        c_scale_definition_def)

text \<open>
  C8. Whenever \<open>get_formatted_value\<close> returns a string, it is the fixed-point formatting of
  the position with exactly \<open>get_decimal_places\<close> fractional digits: a minus sign when
  the sign bit of the formatted \<^verbatim>\<open>float\<close> is set, the digits of the whole part, a point and
  exactly that many digits, and the number it denotes is within half a unit of the last
  digit of the magnitude of that \<^verbatim>\<open>float\<close>. A string is returned exactly when
  \<open>get_decimal_places\<close> returns and the position converts to a \<^verbatim>\<open>float\<close>. The formatted
  \<^verbatim>\<open>float\<close> is the position itself when that is a \<^verbatim>\<open>float\<close> (\<^verbatim>\<open>-0.0\<close> keeps its sign),
  and the position exactly when it is an \<^verbatim>\<open>int\<close> below \<open>2 ^ 53\<close> in magnitude; an \<^verbatim>\<open>int\<close> of
  \<open>2 ^ 1024\<close> or more raises \<^verbatim>\<open>OverflowError\<close>.
\<close>

theorem get_formatted_value_fixed_point:
  "(get_formatted_value self position = Inr s \<longrightarrow>
      (\<exists>d negative magnitude whole frac.
          get_decimal_places self (number_value position) = Inr d \<and>
          float_to_format position = Inr (negative, magnitude) \<and>
          s = (if negative then ''-'' else '''') @ whole @ ''.'' @ frac \<and>
          int (length frac) = d \<and>
          (\<forall>c\<in>set (whole @ frac). is_digit c) \<and>
          \<bar>real (digits_value whole) + real (digits_value frac) / 10 ^ nat d - magnitude\<bar>
            \<le> 1 / (2 * 10 ^ nat d))) \<and>
   ((\<exists>s. get_formatted_value self position = Inr s) \<longleftrightarrow>
      (\<exists>d. get_decimal_places self (number_value position) = Inr d) \<and>
      (\<exists>f. float_to_format position = Inr f)) \<and>
   float_to_format (PyFloat x) = Inr (x < 0, \<bar>x\<bar>) \<and>
   float_to_format PyNegZero = Inr (True, 0) \<and>
   (\<bar>n\<bar> < 2 ^ 53 \<longrightarrow> float_to_format (PyInt n) = Inr (n < 0, \<bar>of_int n\<bar>)) \<and>
   (2 ^ 1024 \<le> n \<longrightarrow> float_to_format (PyInt n) = Inl OverflowError)"
proof (intro conjI impI)
  assume s: "get_formatted_value self position = Inr s"
  then obtain d where d: "get_decimal_places self (number_value position) = Inr d"
    by (auto simp: get_formatted_value_def split: sum.splits)
  from s d obtain negative magnitude where
    f: "float_to_format position = Inr (negative, magnitude)"
    and fs: "s = format_fixed (nat d) negative magnitude"
    by (auto simp: get_formatted_value_def split: sum.splits)
  have pos: "0 < nat d" and dd: "int (nat d) = d"
    using get_decimal_places_Inr[OF d] by simp_all
  have m0: "0 \<le> magnitude"
    using f by (rule float_to_format_nonneg)
  from format_fixed_shape[OF pos m0, of negative] obtain whole frac where
    "format_fixed (nat d) negative magnitude =
       (if negative then ''-'' else '''') @ whole @ ''.'' @ frac"
    "length frac = nat d"
    "\<forall>c\<in>set (whole @ frac). is_digit c"
    "\<bar>real (digits_value whole) + real (digits_value frac) / 10 ^ nat d - magnitude\<bar>
       \<le> 1 / (2 * 10 ^ nat d)"
    by blast
  then show "\<exists>d negative magnitude whole frac.
          get_decimal_places self (number_value position) = Inr d \<and>
          float_to_format position = Inr (negative, magnitude) \<and>
          s = (if negative then ''-'' else '''') @ whole @ ''.'' @ frac \<and>
          int (length frac) = d \<and>
          (\<forall>c\<in>set (whole @ frac). is_digit c) \<and>
          \<bar>real (digits_value whole) + real (digits_value frac) / 10 ^ nat d - magnitude\<bar>
            \<le> 1 / (2 * 10 ^ nat d)"
    using d f fs dd
    by (intro exI[of _ d] exI[of _ negative] exI[of _ magnitude] exI[of _ whole] exI[of _ frac])
      simp
next
  show "(\<exists>s. get_formatted_value self position = Inr s) \<longleftrightarrow>
      (\<exists>d. get_decimal_places self (number_value position) = Inr d) \<and>
      (\<exists>f. float_to_format position = Inr f)"
    by (auto simp: get_formatted_value_def split: sum.splits)
next
  show "float_to_format (PyFloat x) = Inr (x < 0, \<bar>x\<bar>)" by simp
next
  show "float_to_format PyNegZero = Inr (True, 0)" by simp
next
  assume "\<bar>n\<bar> < 2 ^ 53"
  then show "float_to_format (PyInt n) = Inr (n < 0, \<bar>of_int n\<bar>)"
    by (simp add: float_of_int_small)
next
  assume "2 ^ 1024 \<le> n"
  then show "float_to_format (PyInt n) = Inl OverflowError"
    by (simp add: float_of_int_overflow)
qed

theorem get_formatted_value_fixed_point_witness:
  "get_formatted_value create_c_scale_calculator (PyFloat 3.14159) = Inr ''3.142'' \<and>
   (\<exists>whole frac. ''3.142'' = whole @ ''.'' @ frac \<and> int (length frac) = 3) \<and>
   get_formatted_value create_c_scale_calculator (PyInt 5) = Inr ''5.000'' \<and>
   get_formatted_value create_c_scale_calculator PyNegZero = Inr ''-0.00'' \<and>
   get_formatted_value create_c_scale_calculator (PyInt (2 ^ 53 + 1)) =
     Inr ''9007199254740992.00'' \<and>
   get_formatted_value create_c_scale_calculator (PyInt (10 ^ 400)) = Inl OverflowError"
proof -
  let ?c = create_c_scale_calculator
  note fmt = format_fixed_def round_half_even_def Let_def decimal_digits.simps digit_char_def
    replicate_2 replicate_3
  have d: "get_decimal_places ?c 3.14159 = Inr 3"
    using interval_to_decimal_places_digits[of 2 "0.02"]
    by (simp add: calculator_defs create_c_scale_calculator_def c_scale_definition_def)
  have "format_fixed 3 False 3.14159 = ''3.142''"
    by (simp add: fmt)
  then have v: "get_formatted_value ?c (PyFloat 3.14159) = Inr ''3.142''"
    using d by (simp add: get_formatted_value_def)
  have "\<exists>d negative magnitude whole frac.
          get_decimal_places ?c (number_value (PyFloat 3.14159)) = Inr d \<and>
          float_to_format (PyFloat 3.14159) = Inr (negative, magnitude) \<and>
          ''3.142'' = (if negative then ''-'' else '''') @ whole @ ''.'' @ frac \<and>
          int (length frac) = d \<and>
          (\<forall>c\<in>set (whole @ frac). is_digit c) \<and>
          \<bar>real (digits_value whole) + real (digits_value frac) / 10 ^ nat d - magnitude\<bar>
            \<le> 1 / (2 * 10 ^ nat d)"
    using get_formatted_value_fixed_point
      [of ?c "PyFloat 3.14159" "''3.142''", THEN conjunct1] v
    by (rule mp)
  then obtain d' negative magnitude whole frac where
    d': "get_decimal_places ?c (number_value (PyFloat 3.14159)) = Inr d'"
    and f: "float_to_format (PyFloat 3.14159) = Inr (negative, magnitude)"
    and w: "''3.142'' = (if negative then ''-'' else '''') @ whole @ ''.'' @ frac"
    and l: "int (length frac) = d'"
    by (elim exE conjE)
  have "d' = 3" using d d' by simp
  moreover have "\<not> negative" using f by simp
  ultimately have s: "\<exists>whole frac. ''3.142'' = whole @ ''.'' @ frac \<and> int (length frac) = 3"
    using w l by (intro exI[of _ whole] exI[of _ frac]) simp
  have d5: "get_decimal_places ?c 5 = Inr 3"
    using interval_to_decimal_places_digits[of 2 "0.05"]
    by (simp add: calculator_defs create_c_scale_calculator_def c_scale_definition_def)
  have "float_to_format (PyInt 5) = Inr (False, 5)"
    using get_formatted_value_fixed_point
      [of _ _ _ _ 5, THEN conjunct2, THEN conjunct2, THEN conjunct2, THEN conjunct2,
        THEN conjunct1]
    by simp
  moreover have "format_fixed 3 False 5 = ''5.000''"
    by (simp add: fmt)
  ultimately have i5: "get_formatted_value ?c (PyInt 5) = Inr ''5.000''"
    using d5 by (simp add: get_formatted_value_def)
  have d0: "get_decimal_places ?c 0 = Inr 2"
    by (rule c_scale_out_of_bounds) simp
  have "format_fixed 2 True 0 = ''-0.00''"
    by (simp add: fmt)
  then have z: "get_formatted_value ?c PyNegZero = Inr ''-0.00''"
    using d0 by (simp add: get_formatted_value_def)
  have db: "get_decimal_places ?c 9007199254740993 = Inr 2"
    by (rule c_scale_out_of_bounds) simp
  have "float_of_int (2 ^ 53 + 1) = Inr 9007199254740992"
    by (simp add: float_of_int_def round_double_2_53_plus_1)
  moreover have "format_fixed 2 False 9007199254740992 = ''9007199254740992.00''"
    by (simp add: fmt)
  ultimately have b: "get_formatted_value ?c (PyInt (2 ^ 53 + 1)) = Inr ''9007199254740992.00''"
    using db by (simp add: get_formatted_value_def)
  have dh: "get_decimal_places ?c (of_int (10 ^ 400)) = Inr 2"
    by (rule c_scale_out_of_bounds) simp
  have "float_to_format (PyInt (10 ^ 400)) = Inl OverflowError"
    using get_formatted_value_fixed_point
      [of _ _ _ _ "10 ^ 400", THEN conjunct2, THEN conjunct2, THEN conjunct2, THEN conjunct2,
        THEN conjunct2]
    by simp
  then have h: "get_formatted_value ?c (PyInt (10 ^ 400)) = Inl OverflowError"
    using dh by (simp add: get_formatted_value_def)
  show ?thesis
    using v s i5 z b h by (intro conjI)
qed

end
